theory Spec2Isabelle
  imports Complex_Main "HOL-Library.Sublist"
begin

text \<open>
  A shallow embedding of \<open>script.js\<close>: the word wrapper \<open>wrapText\<close>, the font-size
  search \<open>optimizeLayout\<close>, the computation of the visible lines of one frame in the
  frame loop of \<open>generateTypingVideo\<close>, and the handlers that run when the encoder
  finishes or fails.
\<close>

section \<open>Numbers of the script\<close>

text \<open>
  The script computes with JavaScript Numbers. They are modelled here as exact rationals
  together with the three non-finite values that a division by zero produces; the
  rounding of IEEE-754 double precision and the sign of zero are not modelled. Frame
  indices (the loop counter \<open>i\<close> of \<open>generateTypingVideo\<close>) are natural numbers, string
  lengths are natural numbers, and a \<^typ>\<open>string\<close> is the list of the code units of a
  JavaScript string.
\<close>

datatype jsnum = Fin rat | PosInf | NegInf | NaN

text \<open>\<open>a / b\<close> for finite operands: a zero divisor gives \<open>Infinity\<close>, \<open>-Infinity\<close> or \<open>NaN\<close>.\<close>

definition js_div :: "rat \<Rightarrow> rat \<Rightarrow> jsnum" where
  "js_div a b =
     (if b \<noteq> 0 then Fin (a / b)
      else if 0 < a then PosInf
      else if a < 0 then NegInf
      else NaN)"

text \<open>\<open>a * y\<close> for a finite left operand.\<close>

fun js_mul :: "rat \<Rightarrow> jsnum \<Rightarrow> jsnum" where
  "js_mul a (Fin p) = Fin (a * p)"
| "js_mul a PosInf = (if 0 < a then PosInf else if a < 0 then NegInf else NaN)"
| "js_mul a NegInf = (if 0 < a then NegInf else if a < 0 then PosInf else NaN)"
| "js_mul a NaN = NaN"

text \<open>\<open>Math.floor\<close>.\<close>

fun js_floor :: "jsnum \<Rightarrow> jsnum" where
  "js_floor (Fin x) = Fin (of_int \<lfloor>x\<rfloor>)"
| "js_floor PosInf = PosInf"
| "js_floor NegInf = NegInf"
| "js_floor NaN = NaN"

text \<open>\<open>x <= y\<close> for a finite left operand: every comparison with \<open>NaN\<close> is false.\<close>

fun js_le :: "rat \<Rightarrow> jsnum \<Rightarrow> bool" where
  "js_le x (Fin y) = (x \<le> y)"
| "js_le x PosInf = True"
| "js_le x NegInf = False"
| "js_le x NaN = False"

text \<open>\<open>y - c\<close> for a finite right operand.\<close>

fun js_sub :: "jsnum \<Rightarrow> rat \<Rightarrow> jsnum" where
  "js_sub (Fin y) c = Fin (y - c)"
| "js_sub PosInf c = PosInf"
| "js_sub NegInf c = NegInf"
| "js_sub NaN c = NaN"

text \<open>
  \<open>s.slice(0, end)\<close>: the end index is truncated towards zero (\<open>NaN\<close> counts as 0), a
  negative end counts from the end of the string, and the result is clamped to the string.
\<close>

definition js_trunc :: "rat \<Rightarrow> int" where
  "js_trunc e = (if 0 \<le> e then \<lfloor>e\<rfloor> else \<lceil>e\<rceil>)"

fun slice0 :: "string \<Rightarrow> jsnum \<Rightarrow> string" where
  "slice0 s (Fin e) =
     (let r = js_trunc e
      in if r < 0 then take (nat (int (length s) + r)) s else take (nat r) s)"
| "slice0 s PosInf = s"
| "slice0 s NegInf = []"
| "slice0 s NaN = []"

section \<open>Line wrapping\<close>

text \<open>
  \<open>text.split(' ')\<close>: the pieces between single spaces. The result is never empty; the
  empty string gives one empty word.
\<close>

fun split_space :: "string \<Rightarrow> string list" where
  "split_space [] = [[]]"
| "split_space (c # cs) =
     (if c = CHR '' '' then [] # split_space cs
      else (case split_space cs of
              w # ws \<Rightarrow> (c # w) # ws
            | [] \<Rightarrow> [[c]]))"

text \<open>\<open>lines.join(' ')\<close>, used to state what the wrapper preserves.\<close>

fun join_space :: "string list \<Rightarrow> string" where
  "join_space [] = []"
| "join_space [w] = w"
| "join_space (w # v # ws) = w @ '' '' @ join_space (v # ws)"

text \<open>
  The \<open>for\<close> loop of \<open>wrapText\<close> over \<open>words[1..]\<close>, with its two variables
  \<open>currentLine\<close> and \<open>lines\<close>. The first argument is \<open>ctx.measureText(s).width\<close> for the
  font that the context has when \<open>wrapText\<close> is called.
\<close>

fun wrapLoop ::
  "(string \<Rightarrow> rat) \<Rightarrow> rat \<Rightarrow> string list \<Rightarrow> string \<Rightarrow> string list \<Rightarrow> string list" where
  "wrapLoop measureText maxWidth [] currentLine lns = lns @ [currentLine]"
| "wrapLoop measureText maxWidth (word # rest) currentLine lns =
     (let width = measureText (currentLine @ '' '' @ word)
      in if width < maxWidth
         then wrapLoop measureText maxWidth rest (currentLine @ '' '' @ word) lns
         else wrapLoop measureText maxWidth rest word (lns @ [currentLine]))"

text \<open>
  \<open>wrapText\<close>. The first case cannot happen, since \<open>split\<close> never returns an empty
  array (lemma \<open>split_space_nonempty\<close>).
\<close>

definition wrapText :: "(string \<Rightarrow> rat) \<Rightarrow> string \<Rightarrow> rat \<Rightarrow> string list" where
  "wrapText measureText text maxWidth =
     (case split_space text of
        [] \<Rightarrow> []
      | w # ws \<Rightarrow> wrapLoop measureText maxWidth ws w [])"

section \<open>Layout search\<close>

text \<open>
  The object \<open>{ fontSize, lines, lineHeight }\<close> that \<open>optimizeLayout\<close> returns. Font sizes
  are integers: the search starts at \<open>maxFontSize\<close> (100 by default) and goes down by 1
  to \<open>minFontSize\<close> (12 by default). The factor \<open>1.2\<close> is the rational 6/5.
\<close>

record layout =
  fontSize :: int
  lines :: "string list"
  lineHeight :: rat

text \<open>
  The \<open>while (fontSize >= minFontSize)\<close> loop together with the fallback that follows
  it. \<open>measureAt fs\<close> is the width function of the context after
  \<open>ctx.font = `${fs}px Arial`\<close>.
\<close>

function optimizeLoop ::
  "(int \<Rightarrow> string \<Rightarrow> rat) \<Rightarrow> string \<Rightarrow> rat \<Rightarrow> rat \<Rightarrow> int \<Rightarrow> int \<Rightarrow> layout" where
  "optimizeLoop measureAt text maxWidth maxHeight minFontSize fs =
     (if minFontSize \<le> fs
      then (let lns = wrapText (measureAt fs) text maxWidth;
                lh = of_int fs * (6 / 5);
                totalHeight = of_nat (length lns) * lh
            in if totalHeight \<le> maxHeight
               then \<lparr>fontSize = fs, lines = lns, lineHeight = lh\<rparr>
               else optimizeLoop measureAt text maxWidth maxHeight minFontSize (fs - 1))
      else \<lparr>fontSize = minFontSize,
            lines = wrapText (measureAt minFontSize) text maxWidth,
            lineHeight = of_int minFontSize * (6 / 5)\<rparr>)"
  by pat_completeness auto
termination
  by (relation "measure (\<lambda>(m, t, w, h, lo, fs). nat (fs - lo + 1))") auto

definition optimizeLayout ::
  "(int \<Rightarrow> string \<Rightarrow> rat) \<Rightarrow> string \<Rightarrow> rat \<Rightarrow> rat \<Rightarrow> int \<Rightarrow> int \<Rightarrow> layout" where
  "optimizeLayout measureAt text maxWidth maxHeight minFontSize maxFontSize =
     optimizeLoop measureAt text maxWidth maxHeight minFontSize maxFontSize"

text \<open>
  Two names for parts of the loop body: the test \<open>totalHeight <= maxHeight\<close> at one font
  size, and the object built at one font size.
\<close>

definition fitsHeight :: "(int \<Rightarrow> string \<Rightarrow> rat) \<Rightarrow> string \<Rightarrow> rat \<Rightarrow> rat \<Rightarrow> int \<Rightarrow> bool" where
  "fitsHeight measureAt text maxWidth maxHeight fs \<longleftrightarrow>
     of_nat (length (wrapText (measureAt fs) text maxWidth)) * (of_int fs * (6 / 5)) \<le> maxHeight"

definition layoutAt :: "(int \<Rightarrow> string \<Rightarrow> rat) \<Rightarrow> string \<Rightarrow> rat \<Rightarrow> int \<Rightarrow> layout" where
  "layoutAt measureAt text maxWidth fs =
     \<lparr>fontSize = fs, lines = wrapText (measureAt fs) text maxWidth,
      lineHeight = of_int fs * (6 / 5)\<rparr>"

text \<open>
  The font metrics belong to the canvas library, so every result below holds for an
  arbitrary \<open>measureAt\<close>. The examples use this one: each character is half the font
  size wide.
\<close>

definition monoMeasure :: "int \<Rightarrow> string \<Rightarrow> rat" where
  "monoMeasure fs s = of_int fs * of_nat (length s) / 2"

section \<open>Visible text of one frame\<close>

text \<open>
  The frame counts of \<open>generateTypingVideo\<close> (\<open>fps = 30\<close>):
  \<open>totalFrames = videoLength * fps\<close>, \<open>bufferFrames = bufferTime * fps\<close> and
  \<open>typingFrames = totalFrames - 2 * bufferFrames\<close>.
\<close>

definition fps :: rat where
  "fps = 30"

definition totalFramesOf :: "rat \<Rightarrow> rat" where
  "totalFramesOf videoLength = videoLength * fps"

definition bufferFramesOf :: "rat \<Rightarrow> rat" where
  "bufferFramesOf bufferTime = bufferTime * fps"

definition typingFrames :: "rat \<Rightarrow> rat \<Rightarrow> rat" where
  "typingFrames totalFrames bufferFrames = totalFrames - 2 * bufferFrames"

text \<open>
  The branch that the \<open>if\<close> / \<open>else if\<close> chain of the frame loop takes at frame \<open>i\<close>.
  Only the first branch computes \<open>progress\<close>, the one division of the loop body.
\<close>

datatype regime = LeadingHold | Typing | TrailingHold

definition frameRegime :: "rat \<Rightarrow> rat \<Rightarrow> nat \<Rightarrow> regime" where
  "frameRegime totalFrames bufferFrames i =
     (if bufferFrames \<le> of_nat i \<and> of_nat i < totalFrames - bufferFrames then Typing
      else if totalFrames - bufferFrames \<le> of_nat i then TrailingHold
      else LeadingHold)"

definition progress :: "rat \<Rightarrow> rat \<Rightarrow> nat \<Rightarrow> jsnum" where
  "progress totalFrames bufferFrames i =
     js_div (of_nat i - bufferFrames) (typingFrames totalFrames bufferFrames)"

definition visibleChars :: "string \<Rightarrow> rat \<Rightarrow> rat \<Rightarrow> nat \<Rightarrow> jsnum" where
  "visibleChars text totalFrames bufferFrames i =
     (let totalChars = length text
      in js_floor (js_mul (of_nat totalChars) (progress totalFrames bufferFrames i)))"

text \<open>
  The \<open>for (let line of lines)\<close> loop: the lines still to visit, \<open>visibleChars\<close>, the
  running \<open>charCount\<close> and the \<open>displayLines\<close> built so far. The \<open>break\<close> is the branch
  that does not recurse.
\<close>

fun displayLoop :: "string list \<Rightarrow> jsnum \<Rightarrow> nat \<Rightarrow> string list \<Rightarrow> string list" where
  "displayLoop [] v charCount displayLines = displayLines"
| "displayLoop (line # rest) v charCount displayLines =
     (if js_le (of_nat (charCount + length line)) v
      then displayLoop rest v (charCount + length line) (displayLines @ [line])
      else displayLines @ [slice0 line (js_sub v (of_nat charCount))])"

definition displayLinesAt ::
  "string \<Rightarrow> string list \<Rightarrow> rat \<Rightarrow> rat \<Rightarrow> nat \<Rightarrow> string list" where
  "displayLinesAt text lns totalFrames bufferFrames i =
     (case frameRegime totalFrames bufferFrames i of
        Typing \<Rightarrow> displayLoop lns (visibleChars text totalFrames bufferFrames i) 0 []
      | TrailingHold \<Rightarrow> lns
      | LeadingHold \<Rightarrow> [])"

text \<open>The text that a sequence of display lines shows: all their characters, in order.\<close>

definition shownText :: "string list \<Rightarrow> string" where
  "shownText displayLines = concat displayLines"

text \<open>The number of characters in a sequence of lines: the value \<open>charCount\<close> reaches.\<close>

definition charsIn :: "string list \<Rightarrow> nat" where
  "charsIn ls = sum_list (map length ls)"

section \<open>Encoder completion and cleanup\<close>

text \<open>
  The temporary directory \<open>temp_frames\<close> and the files in it. The encoder ends with one
  of two events, \<open>end\<close> or \<open>error\<close> with the error; each has a handler, and the handler
  settles the promise that \<open>generateTypingVideo\<close> returns (\<open>Inr ()\<close> for \<open>resolve()\<close>,
  \<open>Inl err\<close> for \<open>reject(err)\<close>).
\<close>

record tempState =
  dirExists :: bool
  files :: "string list"

datatype encoderOutcome = EncoderEnd | EncoderError string

definition unlinkSync :: "string \<Rightarrow> tempState \<Rightarrow> tempState" where
  "unlinkSync file s = s\<lparr>files := removeAll file (files s)\<rparr>"

definition rmdirSync :: "tempState \<Rightarrow> tempState" where
  "rmdirSync s = s\<lparr>dirExists := False\<rparr>"

text \<open>The \<open>end\<close> handler: unlink every file of the directory, remove it, resolve.\<close>

definition onEnd :: "tempState \<Rightarrow> (string + unit) \<times> tempState" where
  "onEnd s = (Inr (), rmdirSync (fold unlinkSync (files s) s))"

text \<open>The \<open>error\<close> handler: log the error and reject with it. It touches no file.\<close>

definition onError :: "string \<Rightarrow> tempState \<Rightarrow> (string + unit) \<times> tempState" where
  "onError err s = (Inl err, s)"

fun runEncoder :: "encoderOutcome \<Rightarrow> tempState \<Rightarrow> (string + unit) \<times> tempState" where
  "runEncoder EncoderEnd s = onEnd s"
| "runEncoder (EncoderError err) s = onError err s"

section \<open>Properties of the wrapper\<close>

lemma split_space_nonempty: "split_space s \<noteq> []"
  by (induction s) (auto split: list.splits)

lemma join_split_space: "join_space (split_space s) = s"
proof (induction s)
  case Nil
  then show ?case by simp
next
  case (Cons c cs)
  obtain w ws where w: "split_space cs = w # ws"
    using split_space_nonempty [of cs] by (cases "split_space cs") auto
  show ?case
  proof (cases "c = CHR '' ''")
    case True
    with Cons w show ?thesis by simp
  next
    case False
    with Cons w show ?thesis by (cases ws) auto
  qed
qed

lemma join_space_append:
  "xs \<noteq> [] \<Longrightarrow> ys \<noteq> [] \<Longrightarrow> join_space (xs @ ys) = join_space xs @ '' '' @ join_space ys"
proof (induction xs rule: join_space.induct)
  case 1
  then show ?case by simp
next
  case (2 w)
  then show ?case by (cases ys) auto
next
  case (3 w v ws)
  then show ?case by simp
qed

lemma wrapLoop_join:
  "join_space (wrapLoop m W ws cur lns) = join_space (lns @ [join_space (cur # ws)])"
proof (induction ws arbitrary: cur lns)
  case Nil
  then show ?case by simp
next
  case (Cons word rest)
  show ?case
  proof (cases "m (cur @ '' '' @ word) < W")
    case True
    then have "join_space (wrapLoop m W (word # rest) cur lns) =
                 join_space (lns @ [join_space ((cur @ '' '' @ word) # rest)])"
      by (simp add: Cons.IH)
    also have "join_space ((cur @ '' '' @ word) # rest) = join_space (cur # word # rest)"
      by (cases rest) simp_all
    finally show ?thesis .
  next
    case False
    then have "join_space (wrapLoop m W (word # rest) cur lns) =
                 join_space ((lns @ [cur]) @ [join_space (word # rest)])"
      by (simp add: Cons.IH)
    also have "\<dots> = join_space (lns @ [join_space (cur # word # rest)])"
    proof (cases "lns = []")
      case True
      then show ?thesis by simp
    next
      case False
      then show ?thesis
        using join_space_append [of lns "[cur, join_space (word # rest)]"]
          join_space_append [of lns "[join_space (cur # word # rest)]"]
        by simp
    qed
    finally show ?thesis .
  qed
qed

text \<open>
  Claim C2. Joining the lines that \<open>wrapText\<close> returns with single spaces gives back
  the text exactly. This holds for every text (also the empty one), every width function
  and every \<open>maxWidth\<close>, so in particular for a non-empty text and a \<open>maxWidth\<close> that is
  at least the width of the widest word. The text is a value that \<open>wrapText\<close> only reads:
  it is the same string before and after the call.
\<close>

theorem wrapText_roundtrip: "join_space (wrapText measureText text maxWidth) = text"
proof -
  obtain w ws where w: "split_space text = w # ws"
    using split_space_nonempty [of "text"] by (cases "split_space text") auto
  have "join_space (wrapText measureText text maxWidth) = join_space [join_space (w # ws)]"
    by (simp add: wrapText_def w wrapLoop_join)
  also have "\<dots> = join_space (split_space text)"
    by (simp add: w)
  finally show ?thesis
    by (simp add: join_split_space)
qed

lemma wrapLoop_lines:
  assumes "\<forall>l\<in>set lns. l \<in> A \<or> m l < W" and "cur \<in> A \<or> m cur < W" and "set ws \<subseteq> A"
  shows "\<forall>l\<in>set (wrapLoop m W ws cur lns). l \<in> A \<or> m l < W"
  using assms
proof (induction ws arbitrary: cur lns)
  case Nil
  then show ?case by simp
next
  case (Cons word rest)
  show ?case
  proof (cases "m (cur @ '' '' @ word) < W")
    case True
    have "\<forall>l\<in>set (wrapLoop m W rest (cur @ '' '' @ word) lns). l \<in> A \<or> m l < W"
      using Cons.prems True by (intro Cons.IH) simp_all
    with True show ?thesis by simp
  next
    case False
    have "\<forall>l\<in>set (wrapLoop m W rest word (lns @ [cur])). l \<in> A \<or> m l < W"
      using Cons.prems by (intro Cons.IH) auto
    with False show ?thesis by simp
  qed
qed

lemma wrapText_lines:
  "\<forall>l\<in>set (wrapText m t W). l \<in> set (split_space t) \<or> m l < W"
proof (cases "split_space t")
  case Nil
  then show ?thesis by (simp add: wrapText_def)
next
  case (Cons w ws)
  have "\<forall>l\<in>set (wrapLoop m W ws w []). l \<in> set (split_space t) \<or> m l < W"
    by (rule wrapLoop_lines) (auto simp: Cons)
  then show ?thesis by (simp add: wrapText_def Cons)
qed

lemma split_space_no_space: "\<forall>w\<in>set (split_space s). CHR '' '' \<notin> set w"
proof (induction s)
  case Nil
  then show ?case by simp
next
  case (Cons c cs)
  then show ?case by (cases "split_space cs") auto
qed

lemma wrapLoop_nonempty: "wrapLoop m W ws cur lns \<noteq> []"
  by (induction ws arbitrary: cur lns) (simp_all add: Let_def)

lemma wrapText_nonempty: "wrapText m t W \<noteq> []"
  using split_space_nonempty [of t]
  by (cases "split_space t") (simp_all add: wrapText_def wrapLoop_nonempty)

section \<open>Properties of the layout search\<close>

declare optimizeLoop.simps [simp del]

lemma optimizeLoop_below:
  "fs < lo \<Longrightarrow> optimizeLoop m t W H lo fs = layoutAt m t W lo"
  by (subst optimizeLoop.simps) (simp add: layoutAt_def)

lemma optimizeLoop_fit:
  "lo \<le> fs \<Longrightarrow> fitsHeight m t W H fs \<Longrightarrow> optimizeLoop m t W H lo fs = layoutAt m t W fs"
  by (subst optimizeLoop.simps) (simp add: layoutAt_def fitsHeight_def Let_def)

lemma optimizeLoop_step:
  "lo \<le> fs \<Longrightarrow> \<not> fitsHeight m t W H fs \<Longrightarrow>
     optimizeLoop m t W H lo fs = optimizeLoop m t W H lo (fs - 1)"
  by (subst optimizeLoop.simps) (simp add: fitsHeight_def Let_def)

lemma optimizeLoop_first_fit:
  assumes "lo \<le> s" and "s \<le> fs" and "fitsHeight m t W H s"
    and "\<forall>u. s < u \<and> u \<le> fs \<longrightarrow> \<not> fitsHeight m t W H u"
  shows "optimizeLoop m t W H lo fs = layoutAt m t W s"
  using assms
proof (induction "nat (fs - s)" arbitrary: fs)
  case 0
  then have "fs = s" by simp
  with 0 show ?case by (simp add: optimizeLoop_fit)
next
  case (Suc n)
  then have lt: "s < fs" by linarith
  with Suc.prems have nf: "\<not> fitsHeight m t W H fs" by simp
  have "optimizeLoop m t W H lo fs = optimizeLoop m t W H lo (fs - 1)"
    using lt Suc.prems(1) nf by (intro optimizeLoop_step) simp_all
  also have "\<dots> = layoutAt m t W s"
  proof (rule Suc.hyps(1))
    show "n = nat (fs - 1 - s)" using Suc.hyps(2) by linarith
    show "lo \<le> s" by fact
    show "s \<le> fs - 1" using lt by simp
    show "fitsHeight m t W H s" by fact
    show "\<forall>u. s < u \<and> u \<le> fs - 1 \<longrightarrow> \<not> fitsHeight m t W H u"
      using Suc.prems(4) by simp
  qed
  finally show ?case .
qed

lemma optimizeLoop_no_fit:
  assumes "\<forall>u. lo \<le> u \<and> u \<le> fs \<longrightarrow> \<not> fitsHeight m t W H u"
  shows "optimizeLoop m t W H lo fs = layoutAt m t W lo"
  using assms
proof (induction "nat (fs - lo + 1)" arbitrary: fs)
  case 0
  then have "fs < lo" by simp
  then show ?case by (rule optimizeLoop_below)
next
  case (Suc n)
  then have le: "lo \<le> fs" by linarith
  with Suc.prems have nf: "\<not> fitsHeight m t W H fs" by simp
  have "optimizeLoop m t W H lo fs = optimizeLoop m t W H lo (fs - 1)"
    using le nf by (rule optimizeLoop_step)
  also have "\<dots> = layoutAt m t W lo"
  proof (rule Suc.hyps(1))
    show "n = nat (fs - 1 - lo + 1)" using Suc.hyps(2) by linarith
    show "\<forall>u. lo \<le> u \<and> u \<le> fs - 1 \<longrightarrow> \<not> fitsHeight m t W H u"
      using Suc.prems by simp
  qed
  finally show ?case .
qed

text \<open>
  Among the sizes up to a bound, one of which passes a test, there is a largest one that
  passes.
\<close>

lemma greatest_fit:
  fixes lo s hi :: int
  assumes "lo \<le> s" and "s \<le> hi" and "P s"
  shows "\<exists>g. lo \<le> g \<and> g \<le> hi \<and> P g \<and> (\<forall>u. g < u \<and> u \<le> hi \<longrightarrow> \<not> P u)"
  using assms
proof (induction "nat (hi - s)" arbitrary: s rule: less_induct)
  case less
  show ?case
  proof (cases "\<exists>u. s < u \<and> u \<le> hi \<and> P u")
    case True
    then obtain u where u: "s < u" "u \<le> hi" "P u" by blast
    have "nat (hi - u) < nat (hi - s)" using u by linarith
    from less.hyps [OF this _ u(2) u(3)] less.prems(1) u(1) show ?thesis by simp
  next
    case False
    with less.prems show ?thesis by blast
  qed
qed

lemma optimizeLoop_is_layoutAt:
  "\<exists>s. optimizeLoop m t W H lo fs = layoutAt m t W s"
proof (cases "\<exists>u. lo \<le> u \<and> u \<le> fs \<and> fitsHeight m t W H u")
  case True
  then obtain u where "lo \<le> u" "u \<le> fs" "fitsHeight m t W H u" by blast
  from greatest_fit [of lo u fs "fitsHeight m t W H", OF this]
  obtain g where "lo \<le> g" "g \<le> fs" "fitsHeight m t W H g"
    "\<forall>u. g < u \<and> u \<le> fs \<longrightarrow> \<not> fitsHeight m t W H u" by blast
  from optimizeLoop_first_fit [OF this] show ?thesis by blast
next
  case False
  then have "\<forall>u. lo \<le> u \<and> u \<le> fs \<longrightarrow> \<not> fitsHeight m t W H u" by blast
  from optimizeLoop_no_fit [OF this] show ?thesis by blast
qed

lemma fontSize_layoutAt [simp]: "fontSize (layoutAt m t W s) = s"
  by (simp add: layoutAt_def)

lemma lines_layoutAt [simp]: "lines (layoutAt m t W s) = wrapText (m s) t W"
  by (simp add: layoutAt_def)

lemma optimizeLoop_range:
  "lo \<le> fontSize (optimizeLoop m t W H lo fs)
   \<and> (lo \<le> fs \<longrightarrow> fontSize (optimizeLoop m t W H lo fs) \<le> fs)"
proof (induction "nat (fs - lo + 1)" arbitrary: fs)
  case 0
  then have "fs < lo" by simp
  then show ?case by (simp add: optimizeLoop_below)
next
  case (Suc n)
  then have le: "lo \<le> fs" by linarith
  show ?case
  proof (cases "fitsHeight m t W H fs")
    case True
    with le show ?thesis by (simp add: optimizeLoop_fit)
  next
    case False
    have n: "n = nat (fs - 1 - lo + 1)" using Suc.hyps(2) by linarith
    from Suc.hyps(1) [OF n] optimizeLoop_step [OF le False] le
    show ?thesis
      by (cases "lo \<le> fs - 1") (simp_all add: optimizeLoop_below)
  qed
qed

lemma fitsHeight_mono:
  "H2 \<le> H1 \<Longrightarrow> fitsHeight m t W H2 fs \<Longrightarrow> fitsHeight m t W H1 fs"
  by (simp add: fitsHeight_def)

lemma optimizeLoop_mono:
  assumes "H2 \<le> H1"
  shows "fontSize (optimizeLoop m t W H2 lo fs) \<le> fontSize (optimizeLoop m t W H1 lo fs)"
proof (induction "nat (fs - lo + 1)" arbitrary: fs)
  case 0
  then have "fs < lo" by simp
  then show ?case by (simp add: optimizeLoop_below)
next
  case (Suc n)
  then have le: "lo \<le> fs" by linarith
  have n: "n = nat (fs - 1 - lo + 1)" using Suc.hyps(2) by linarith
  show ?case
  proof (cases "fitsHeight m t W H1 fs")
    case True
    then have "fontSize (optimizeLoop m t W H1 lo fs) = fs"
      using le by (simp add: optimizeLoop_fit)
    moreover have "fontSize (optimizeLoop m t W H2 lo fs) \<le> fs"
      using optimizeLoop_range [of lo m t W H2 fs] le by simp
    ultimately show ?thesis by simp
  next
    case False
    then have "\<not> fitsHeight m t W H2 fs"
      using fitsHeight_mono [OF assms] by blast
    with False le Suc.hyps(1) [OF n] show ?thesis
      by (simp add: optimizeLoop_step)
  qed
qed

lemma optimizeLayout_lines_nonempty:
  "lines (optimizeLayout measureAt text maxWidth maxHeight minFontSize maxFontSize) \<noteq> []"
proof -
  obtain s where s: "optimizeLayout measureAt text maxWidth maxHeight minFontSize maxFontSize =
      layoutAt measureAt text maxWidth s"
    unfolding optimizeLayout_def using optimizeLoop_is_layoutAt by blast
  show ?thesis unfolding s by (simp add: wrapText_nonempty)
qed


lemma monoMeasure_layout_wide:
  "optimizeLayout monoMeasure ''AB CD'' 1000 800 12 100 =
     \<lparr>fontSize = 100, lines = [''AB CD''], lineHeight = 120\<rparr>"
  unfolding optimizeLayout_def
  by (subst optimizeLoop.simps) (simp add: wrapText_def monoMeasure_def Let_def)

lemma monoMeasure_layout_space:
  "optimizeLayout monoMeasure '' abc'' 80 1536 12 100 =
     \<lparr>fontSize = 100, lines = ['''', ''abc''], lineHeight = 120\<rparr>"
  unfolding optimizeLayout_def
  by (subst optimizeLoop.simps) (simp add: wrapText_def monoMeasure_def Let_def)

lemma monoMeasure_layout_long:
  "optimizeLayout monoMeasure ''incomprehensibilities'' 864 1536 12 100 =
     \<lparr>fontSize = 100, lines = [''incomprehensibilities''], lineHeight = 120\<rparr>"
  unfolding optimizeLayout_def
  by (subst optimizeLoop.simps) (simp add: wrapText_def monoMeasure_def Let_def)



text \<open>
  Claim C8. For fixed text, \<open>maxWidth\<close> and font-size bounds, a smaller height bound never
  gives a larger font size; and when \<open>minFontSize \<le> maxFontSize\<close> the chosen size lies
  between the two bounds, whatever the height bound.
\<close>

theorem optimizeLayout_monotone_in_height:
  "(maxHeight2 \<le> maxHeight1 \<longrightarrow>
      fontSize (optimizeLayout measureAt text maxWidth maxHeight2 minFontSize maxFontSize)
      \<le> fontSize (optimizeLayout measureAt text maxWidth maxHeight1 minFontSize maxFontSize))
   \<and> (minFontSize \<le> maxFontSize \<longrightarrow>
        (\<forall>h. minFontSize
                \<le> fontSize (optimizeLayout measureAt text maxWidth h minFontSize maxFontSize)
            \<and> fontSize (optimizeLayout measureAt text maxWidth h minFontSize maxFontSize)
                \<le> maxFontSize))"
  unfolding optimizeLayout_def
  using optimizeLoop_mono [of maxHeight2 maxHeight1 measureAt "text" maxWidth minFontSize maxFontSize]
    optimizeLoop_range [of minFontSize measureAt "text" maxWidth _ maxFontSize]
  by blast

theorem optimizeLayout_monotone_in_height_witness:
  "(100::rat) \<le> 800 \<and> (12::int) \<le> 100
   \<and> fontSize (optimizeLayout monoMeasure ''AB CD'' 80 100 12 100)
       \<le> fontSize (optimizeLayout monoMeasure ''AB CD'' 80 800 12 100)
   \<and> 12 \<le> fontSize (optimizeLayout monoMeasure ''AB CD'' 80 100 12 100)
   \<and> fontSize (optimizeLayout monoMeasure ''AB CD'' 80 800 12 100) \<le> 100"
proof -
  have h1: "(100::rat) \<le> 800" by simp
  have h2: "(12::int) \<le> 100" by simp
  from optimizeLayout_monotone_in_height [of 100 800 monoMeasure "''AB CD''" 80 12 100] h1 h2
  show ?thesis by blast
qed

text \<open>
  Claim C5, as the code has it. Every line of the chosen layout is a single word of the
  text (a piece without a space, which the wrapper never breaks and places on a line of its
  own whatever its width) or has a measured width, at the chosen font size, strictly below
  \<open>maxWidth\<close>. This holds at every font size, the fallback \<open>minFontSize\<close> included.
\<close>

theorem layout_line_widths:
  "(let r = optimizeLayout measureAt text maxWidth maxHeight minFontSize maxFontSize
    in \<forall>l\<in>set (lines r).
         (l \<in> set (split_space text) \<and> CHR '' '' \<notin> set l)
         \<or> measureAt (fontSize r) l < maxWidth)"
proof -
  obtain s where s: "optimizeLayout measureAt text maxWidth maxHeight minFontSize maxFontSize =
      layoutAt measureAt text maxWidth s"
    unfolding optimizeLayout_def using optimizeLoop_is_layoutAt by blast
  show ?thesis
    unfolding Let_def s
    using wrapText_lines [of "measureAt s" "text" maxWidth] split_space_no_space [of "text"]
    by auto
qed

theorem layout_line_widths_witness:
  "''AB CD'' \<in> set (lines (optimizeLayout monoMeasure ''AB CD'' 1000 800 12 100))
   \<and> CHR '' '' \<in> set ''AB CD''
   \<and> monoMeasure (fontSize (optimizeLayout monoMeasure ''AB CD'' 1000 800 12 100)) ''AB CD''
       < 1000"
proof -
  have m: "''AB CD'' \<in> set (lines (optimizeLayout monoMeasure ''AB CD'' 1000 800 12 100))"
    by (simp add: monoMeasure_layout_wide)
  have s: "CHR '' '' \<in> set ''AB CD''" by simp
  from layout_line_widths [of monoMeasure "''AB CD''" 1000 800 12 100] m s
  have "monoMeasure (fontSize (optimizeLayout monoMeasure ''AB CD'' 1000 800 12 100)) ''AB CD''
          < 1000"
    unfolding Let_def by blast
  with m s show ?thesis by blast
qed

text \<open>
  The claim as stated fails for a single long word: with the default bounds, a box of
  864 by 1536 and a 21-letter word, the search accepts the first size 100 (one line of
  height 120 fits, so the size is not the fallback), and the line measures 1050.
\<close>

theorem layout_line_widths_counterexample:
  "fontSize (optimizeLayout monoMeasure ''incomprehensibilities'' 864 1536 12 100) = 100
   \<and> fitsHeight monoMeasure ''incomprehensibilities'' 864 1536 100
   \<and> lines (optimizeLayout monoMeasure ''incomprehensibilities'' 864 1536 12 100)
       = [''incomprehensibilities'']
   \<and> \<not> monoMeasure 100 ''incomprehensibilities'' \<le> 864"
  by (simp add: monoMeasure_layout_long) (simp add: monoMeasure_def fitsHeight_def wrapText_def)

section \<open>Properties of the visible text\<close>

lemma charsIn_simps [simp]:
  "charsIn [] = 0" "charsIn (l # ls) = length l + charsIn ls"
  by (simp_all add: charsIn_def)

lemma charsIn_take_Suc:
  "j < length ls \<Longrightarrow> charsIn (take (Suc j) ls) = charsIn (take j ls) + length (ls ! j)"
  by (simp add: charsIn_def take_Suc_conv_app_nth)

lemma typing_regime_iff:
  "frameRegime T b i = Typing \<longleftrightarrow> b \<le> of_nat i \<and> of_nat i < T - b"
  by (simp add: frameRegime_def)

text \<open>
  The division that computes \<open>progress\<close> is only reached with a positive divisor.
\<close>

lemma typingFrames_pos:
  assumes "frameRegime T b i = Typing"
  shows "0 < typingFrames T b"
  using assms by (simp add: typing_regime_iff typingFrames_def)

lemma progress_typing:
  assumes "frameRegime T b i = Typing"
  shows "progress T b i = Fin ((of_nat i - b) / typingFrames T b)"
  using typingFrames_pos [OF assms] by (simp add: progress_def js_div_def)

lemma visibleChars_typing:
  assumes "frameRegime T b i = Typing"
  shows "visibleChars text T b i =
           Fin (of_int \<lfloor>of_nat (length text) * (of_nat i - b) / typingFrames T b\<rfloor>)"
  by (simp add: visibleChars_def progress_typing [OF assms])

lemma visibleChars_typing_nonneg:
  assumes "frameRegime T b i = Typing"
  shows "0 \<le> \<lfloor>of_nat (length text) * (of_nat i - b) / typingFrames T b\<rfloor>"
proof -
  have "0 \<le> of_nat i - b" using assms by (simp add: typing_regime_iff)
  moreover have "0 < typingFrames T b" by (rule typingFrames_pos [OF assms])
  ultimately have "0 \<le> of_nat (length text) * (of_nat i - b) / typingFrames T b"
    by simp
  then show ?thesis by simp
qed

lemma slice0_int:
  "0 \<le> n \<Longrightarrow> slice0 s (Fin (of_int n)) = take (nat n) s"
  by (simp add: js_trunc_def)

lemma displayLoop_fin:
  assumes "int c \<le> v"
  shows "\<exists>k\<le>length ls.
           (\<forall>j<k. int (c + charsIn (take (Suc j) ls)) \<le> v)
         \<and> (k < length ls \<longrightarrow> v < int (c + charsIn (take (Suc k) ls)))
         \<and> displayLoop ls (Fin (of_int v)) c d =
             d @ take k ls @
               (if k < length ls
                then [take (nat (v - int (c + charsIn (take k ls)))) (ls ! k)] else [])"
  using assms
proof (induction ls arbitrary: c d)
  case Nil
  then show ?case by simp
next
  case (Cons l ls)
  show ?case
  proof (cases "int (c + length l) \<le> v")
    case True
    from Cons.IH [OF True, of "d @ [l]"] obtain k where k: "k \<le> length ls"
      "\<forall>j<k. int (c + length l + charsIn (take (Suc j) ls)) \<le> v"
      "k < length ls \<longrightarrow> v < int (c + length l + charsIn (take (Suc k) ls))"
      "displayLoop ls (Fin (of_int v)) (c + length l) (d @ [l]) =
         (d @ [l]) @ take k ls @
           (if k < length ls
            then [take (nat (v - int (c + length l + charsIn (take k ls)))) (ls ! k)] else [])"
      by blast
    have a: "\<forall>j<Suc k. int (c + charsIn (take (Suc j) (l # ls))) \<le> v"
    proof (intro allI impI)
      fix j assume "j < Suc k"
      show "int (c + charsIn (take (Suc j) (l # ls))) \<le> v"
      proof (cases j)
        case 0
        then show ?thesis using True by simp
      next
        case (Suc j')
        then have "j' < k" using \<open>j < Suc k\<close> by simp
        then show ?thesis using k(2) Suc by (simp add: add.assoc)
      qed
    qed
    have "displayLoop (l # ls) (Fin (of_int v)) c d =
            displayLoop ls (Fin (of_int v)) (c + length l) (d @ [l])"
      using True by simp
    with k a show ?thesis
      by (intro exI [of _ "Suc k"]) (simp add: add.assoc)
  next
    case False
    have "0 \<le> v - int c" using Cons.prems by simp
    then have "slice0 l (Fin (of_int v - of_nat c)) = take (nat (v - int c)) l"
      using slice0_int [of "v - int c" l] by simp
    with False show ?thesis
      by (intro exI [of _ 0]) simp
  qed
qed

lemma displayLoop_start:
  assumes "0 \<le> v"
  shows "\<exists>k\<le>length ls.
           (\<forall>j<k. int (charsIn (take j ls) + length (ls ! j)) \<le> v)
         \<and> (k < length ls \<longrightarrow> v < int (charsIn (take k ls) + length (ls ! k)))
         \<and> displayLoop ls (Fin (of_int v)) 0 [] =
             take k ls @
               (if k < length ls then [take (nat (v - int (charsIn (take k ls)))) (ls ! k)] else [])"
proof -
  have "int 0 \<le> v" using assms by simp
  from displayLoop_fin [OF this, of ls "[]"] obtain k where k: "k \<le> length ls"
    and a: "\<forall>j<k. int (0 + charsIn (take (Suc j) ls)) \<le> v"
    and b: "k < length ls \<longrightarrow> v < int (0 + charsIn (take (Suc k) ls))"
    and c: "displayLoop ls (Fin (of_int v)) 0 [] =
       [] @ take k ls @
         (if k < length ls
          then [take (nat (v - int (0 + charsIn (take k ls)))) (ls ! k)] else [])"
    by blast
  have a': "\<forall>j<k. int (charsIn (take j ls) + length (ls ! j)) \<le> v"
  proof (intro allI impI)
    fix j assume "j < k"
    then have "j < length ls" using k by simp
    from charsIn_take_Suc [OF this] a \<open>j < k\<close>
    show "int (charsIn (take j ls) + length (ls ! j)) \<le> v" by auto
  qed
  have b': "k < length ls \<longrightarrow> v < int (charsIn (take k ls) + length (ls ! k))"
    using b charsIn_take_Suc [of k ls] by auto
  from c have c': "displayLoop ls (Fin (of_int v)) 0 [] =
       take k ls @
         (if k < length ls then [take (nat (v - int (charsIn (take k ls)))) (ls ! k)] else [])"
    by simp
  from k a' b' c' show ?thesis by blast
qed

lemma shape_prefix:
  assumes "k \<le> length ls"
    and "d = take k ls @ (if k < length ls then [take n (ls ! k)] else [])"
  shows "length d \<le> length ls
       \<and> (\<forall>j. Suc j < length d \<longrightarrow> d ! j = ls ! j)
       \<and> (d \<noteq> [] \<longrightarrow> prefix (last d) (ls ! (length d - 1)))
       \<and> (ls \<noteq> [] \<longrightarrow> d \<noteq> [])"
proof (cases "k < length ls")
  case True
  then have d: "d = take k ls @ [take n (ls ! k)]" using assms(2) by simp
  have len: "length d = Suc k" using True by (simp add: d)
  have "d ! j = ls ! j" if "Suc j < length d" for j
    using that True len by (simp add: d nth_append)
  moreover have "prefix (last d) (ls ! (length d - 1))"
    by (simp add: d take_is_prefix True)
  ultimately show ?thesis using True len by (simp add: d)
next
  case False
  then have d: "d = ls" using assms by simp
  show ?thesis by (simp add: d last_conv_nth)
qed

lemma shape_zero:
  assumes "k \<le> length ls"
    and "\<forall>j<k. int (charsIn (take j ls) + length (ls ! j)) \<le> 0"
    and "d = take k ls @ (if k < length ls then [take (nat (0 - int (charsIn (take k ls)))) (ls ! k)] else [])"
  shows "(\<forall>l\<in>set d. l = []) \<and> (ls \<noteq> [] \<and> hd ls \<noteq> [] \<longrightarrow> d = [[]])"
proof -
  have e: "ls ! j = []" if "j < k" for j
  proof -
    from assms(2) that have "int (charsIn (take j ls) + length (ls ! j)) \<le> 0" by blast
    then have "length (ls ! j) = 0" by linarith
    then show ?thesis by simp
  qed
  have t: "\<forall>l\<in>set (take k ls). l = []"
  proof
    fix l assume "l \<in> set (take k ls)"
    then obtain j where "j < length (take k ls)" "take k ls ! j = l"
      by (auto simp: in_set_conv_nth)
    then show "l = []" using e [of j] by simp
  qed
  have a: "\<forall>l\<in>set d. l = []"
    using t by (auto simp: assms(3))
  have b: "d = [[]]" if "ls \<noteq> []" "hd ls \<noteq> []"
  proof -
    have "k = 0"
    proof (rule ccontr)
      assume "k \<noteq> 0"
      then have "ls ! 0 = []" using e [of 0] by simp
      with that show False by (simp add: hd_conv_nth)
    qed
    with that(1) show ?thesis by (simp add: assms(3))
  qed
  from a b show ?thesis by blast
qed

subsection \<open>Scenario A\<close>

lemma scenarioA_regime:
  "frameRegime 10 0 0 = Typing" "frameRegime 10 0 4 = Typing"
  by (simp_all add: frameRegime_def)

lemma scenarioA_progress:
  "progress 10 0 0 = Fin 0" "progress 10 0 4 = Fin (2 / 5)"
  by (simp_all add: progress_def typingFrames_def js_div_def)

lemma scenarioA_visible:
  "visibleChars ''AB CD'' 10 0 0 = Fin 0" "visibleChars ''AB CD'' 10 0 4 = Fin 2"
  by (simp_all add: visibleChars_def scenarioA_progress)

text \<open>
  Claim C6. With text \<open>AB CD\<close>, the single layout line \<open>AB CD\<close>, 10 frames and no buffer
  frames: at frame 0 the progress is 0, the visible character count is 0 and the display
  shows no character (the display lines are the one empty string); at frame 4 the progress
  is 4/10, the visible character count is 2 and the display is the single line \<open>AB\<close>.
\<close>

theorem scenarioA_frames:
  "progress 10 0 0 = Fin 0
   \<and> visibleChars ''AB CD'' 10 0 0 = Fin 0
   \<and> displayLinesAt ''AB CD'' [''AB CD''] 10 0 0 = ['''']
   \<and> shownText (displayLinesAt ''AB CD'' [''AB CD''] 10 0 0) = ''''
   \<and> progress 10 0 4 = Fin (4 / 10)
   \<and> visibleChars ''AB CD'' 10 0 4 = Fin (of_int \<lfloor>5 * (4 / 10 :: rat)\<rfloor>)
   \<and> visibleChars ''AB CD'' 10 0 4 = Fin 2
   \<and> displayLinesAt ''AB CD'' [''AB CD''] 10 0 4 = [''AB'']"
  by (simp add: displayLinesAt_def scenarioA_regime scenarioA_progress scenarioA_visible
      shownText_def js_trunc_def)

subsection \<open>The typing regime\<close>



text \<open>
  Claim C4. When frames \<open>i\<close> and \<open>i + 1\<close> both are in the typing regime, the visible
  character count at frame \<open>i + 1\<close> is at least the one at frame \<open>i\<close>.
\<close>

theorem visibleChars_nondecreasing:
  assumes "frameRegime totalFrames bufferFrames i = Typing"
    and "frameRegime totalFrames bufferFrames (Suc i) = Typing"
  shows "\<exists>v w. visibleChars text totalFrames bufferFrames i = Fin (of_int v)
             \<and> visibleChars text totalFrames bufferFrames (Suc i) = Fin (of_int w)
             \<and> v \<le> w"
proof -
  let ?t = "typingFrames totalFrames bufferFrames"
  let ?n = "of_nat (length text) :: rat"
  have t: "0 < ?t" by (rule typingFrames_pos [OF assms(1)])
  have "?n * (of_nat i - bufferFrames) \<le> ?n * (of_nat (Suc i) - bufferFrames)"
    by (intro mult_left_mono) simp_all
  then have "?n * (of_nat i - bufferFrames) / ?t \<le> ?n * (of_nat (Suc i) - bufferFrames) / ?t"
    using t by (simp add: divide_right_mono)
  then have "\<lfloor>?n * (of_nat i - bufferFrames) / ?t\<rfloor> \<le> \<lfloor>?n * (of_nat (Suc i) - bufferFrames) / ?t\<rfloor>"
    by (rule floor_mono)
  with visibleChars_typing [OF assms(1), of "text"] visibleChars_typing [OF assms(2), of "text"]
  show ?thesis by blast
qed

theorem visibleChars_nondecreasing_witness:
  "frameRegime 10 0 4 = Typing \<and> frameRegime 10 0 (Suc 4) = Typing
   \<and> (\<exists>v w. visibleChars ''AB CD'' 10 0 4 = Fin (of_int v)
           \<and> visibleChars ''AB CD'' 10 0 (Suc 4) = Fin (of_int w) \<and> v \<le> w)"
proof -
  have h1: "frameRegime 10 0 4 = Typing" by (simp add: frameRegime_def)
  have h2: "frameRegime 10 0 (Suc 4) = Typing" by (simp add: frameRegime_def)
  from h1 h2 visibleChars_nondecreasing [OF h1 h2, of "''AB CD''"] show ?thesis by blast
qed

subsection \<open>No typing frames\<close>

text \<open>
  Claim C7, as the code has it. When \<open>typingFrames \<le> 0\<close> no frame takes the typing
  branch, so \<open>progress\<close> is never computed and nothing is divided by zero; a frame with
  \<open>i \<ge> totalFrames - bufferFrames\<close> shows all lines, and a frame before that shows
  nothing.
\<close>

theorem buffer_consumes_duration:
  assumes "typingFrames totalFrames bufferFrames \<le> 0"
  shows "frameRegime totalFrames bufferFrames i \<noteq> Typing
       \<and> displayLinesAt text lns totalFrames bufferFrames i =
           (if totalFrames - bufferFrames \<le> of_nat i then lns else [])"
proof -
  have n: "frameRegime totalFrames bufferFrames i \<noteq> Typing"
    using assms typingFrames_pos [of totalFrames bufferFrames i] by auto
  then show ?thesis
    by (auto simp: displayLinesAt_def frameRegime_def split: if_splits)
qed

theorem buffer_consumes_duration_witness:
  "typingFrames (totalFramesOf 3) (bufferFramesOf (3 / 2)) \<le> 0
   \<and> frameRegime (totalFramesOf 3) (bufferFramesOf (3 / 2)) 0 \<noteq> Typing
   \<and> displayLinesAt ''AB CD'' [''AB CD''] (totalFramesOf 3) (bufferFramesOf (3 / 2)) 0 = []
   \<and> frameRegime (totalFramesOf 3) (bufferFramesOf (3 / 2)) 45 \<noteq> Typing
   \<and> displayLinesAt ''AB CD'' [''AB CD''] (totalFramesOf 3) (bufferFramesOf (3 / 2)) 45
       = [''AB CD'']"
proof -
  have h: "typingFrames (totalFramesOf 3) (bufferFramesOf (3 / 2)) \<le> 0"
    by (simp add: typingFrames_def totalFramesOf_def bufferFramesOf_def fps_def)
  from buffer_consumes_duration [OF h, of 0 "''AB CD''" "[''AB CD'']"]
    buffer_consumes_duration [OF h, of 45 "''AB CD''" "[''AB CD'']"] h
  show ?thesis by (simp add: totalFramesOf_def bufferFramesOf_def fps_def)
qed

text \<open>
  The claim as stated fails: with a video of 3 seconds and a buffer of 1.5 seconds
  (90 frames, 45 buffer frames, no typing frame), frame 0 shows nothing, not the full
  text.
\<close>

theorem buffer_consumes_duration_counterexample:
  "typingFrames (totalFramesOf 3) (bufferFramesOf (3 / 2)) \<le> 0
   \<and> displayLinesAt ''AB CD'' [''AB CD''] (totalFramesOf 3) (bufferFramesOf (3 / 2)) 0 = []
   \<and> displayLinesAt ''AB CD'' [''AB CD''] (totalFramesOf 3) (bufferFramesOf (3 / 2)) 0
       \<noteq> [''AB CD'']"
  by (simp add: typingFrames_def totalFramesOf_def bufferFramesOf_def fps_def
      displayLinesAt_def frameRegime_def)

subsection \<open>Shape of the display lines\<close>

text \<open>
  Claim C10, as the code has it. At every frame, in every regime, the display lines are
  at most as many as the layout lines, each of them except possibly the last equals the
  layout line at its position, and the last is a prefix of the layout line at its position.
  In the typing regime the display lines of a non-empty sequence of layout lines are not
  empty, and the lines of a layout that \<open>optimizeLayout\<close> returns are never empty. When the
  visible character count is 0, every display line is the empty string, and there is
  exactly one of them if the first layout line is not empty.
\<close>

theorem display_prefix_structured:
  "(let d = displayLinesAt text lns totalFrames bufferFrames i
    in length d \<le> length lns
     \<and> (\<forall>j. Suc j < length d \<longrightarrow> d ! j = lns ! j)
     \<and> (d \<noteq> [] \<longrightarrow> prefix (last d) (lns ! (length d - 1)))
     \<and> (frameRegime totalFrames bufferFrames i = Typing \<and> lns \<noteq> [] \<longrightarrow> d \<noteq> [])
     \<and> (frameRegime totalFrames bufferFrames i = Typing
          \<and> visibleChars text totalFrames bufferFrames i = Fin 0
        \<longrightarrow> (\<forall>l\<in>set d. l = []) \<and> (lns \<noteq> [] \<and> hd lns \<noteq> [] \<longrightarrow> d = [[]])))
   \<and> lines (optimizeLayout measureAt text maxWidth maxHeight minFontSize maxFontSize) \<noteq> []"
proof -
  let ?d = "displayLinesAt text lns totalFrames bufferFrames i"
  have main: "length ?d \<le> length lns
     \<and> (\<forall>j. Suc j < length ?d \<longrightarrow> ?d ! j = lns ! j)
     \<and> (?d \<noteq> [] \<longrightarrow> prefix (last ?d) (lns ! (length ?d - 1)))
     \<and> (frameRegime totalFrames bufferFrames i = Typing \<and> lns \<noteq> [] \<longrightarrow> ?d \<noteq> [])
     \<and> (frameRegime totalFrames bufferFrames i = Typing
          \<and> visibleChars text totalFrames bufferFrames i = Fin 0
        \<longrightarrow> (\<forall>l\<in>set ?d. l = []) \<and> (lns \<noteq> [] \<and> hd lns \<noteq> [] \<longrightarrow> ?d = [[]]))"
  proof (cases "frameRegime totalFrames bufferFrames i")
    case LeadingHold
    then show ?thesis by (simp add: displayLinesAt_def)
  next
    case TrailingHold
    then show ?thesis by (simp add: displayLinesAt_def last_conv_nth)
  next
    case Typing
    let ?v = "\<lfloor>of_nat (length text) * (of_nat i - bufferFrames)
                / typingFrames totalFrames bufferFrames\<rfloor>"
    have v: "visibleChars text totalFrames bufferFrames i = Fin (of_int ?v)"
      by (rule visibleChars_typing [OF Typing])
    have d: "?d = displayLoop lns (Fin (of_int ?v)) 0 []"
      by (simp add: displayLinesAt_def Typing v)
    have "0 \<le> ?v" by (rule visibleChars_typing_nonneg [OF Typing])
    from displayLoop_start [OF this, of lns] obtain k where k: "k \<le> length lns"
      and a: "\<forall>j<k. int (charsIn (take j lns) + length (lns ! j)) \<le> ?v"
      and c: "?d = take k lns @
           (if k < length lns then [take (nat (?v - int (charsIn (take k lns)))) (lns ! k)] else [])"
      unfolding d by blast
    note p = shape_prefix [OF k c]
    have z: "(\<forall>l\<in>set ?d. l = []) \<and> (lns \<noteq> [] \<and> hd lns \<noteq> [] \<longrightarrow> ?d = [[]])"
      if "visibleChars text totalFrames bufferFrames i = Fin 0"
    proof -
      from that v have "?v = 0" by simp
      with a c show ?thesis by (intro shape_zero [OF k]) simp_all
    qed
    from p z show ?thesis by blast
  qed
  from main optimizeLayout_lines_nonempty show ?thesis
    unfolding Let_def by blast
qed

theorem display_prefix_structured_witness:
  "frameRegime 10 0 0 = Typing
   \<and> visibleChars ''AB CD'' 10 0 0 = Fin 0
   \<and> [''AB CD''] \<noteq> [] \<and> hd [''AB CD''] \<noteq> []
   \<and> displayLinesAt ''AB CD'' [''AB CD''] 10 0 0 = [[]]
   \<and> prefix (last (displayLinesAt ''AB CD'' [''AB CD''] 10 0 4))
        ([''AB CD''] ! (length (displayLinesAt ''AB CD'' [''AB CD''] 10 0 4) - 1))"
proof -
  have r: "frameRegime 10 0 0 = Typing" by (simp add: frameRegime_def)
  have r4: "frameRegime 10 0 4 = Typing" by (simp add: frameRegime_def)
  have v: "visibleChars ''AB CD'' 10 0 0 = Fin 0"
    by (simp add: visibleChars_def progress_def typingFrames_def js_div_def)
  have n: "[''AB CD''] \<noteq> []" "hd [''AB CD''] \<noteq> []" by simp_all
  from display_prefix_structured [of "''AB CD''" "[''AB CD'']" 10 0 0] r v n
  have a: "displayLinesAt ''AB CD'' [''AB CD''] 10 0 0 = [[]]"
    unfolding Let_def by blast
  from display_prefix_structured [of "''AB CD''" "[''AB CD'']" 10 0 4] r4 n
  have b: "prefix (last (displayLinesAt ''AB CD'' [''AB CD''] 10 0 4))
        ([''AB CD''] ! (length (displayLinesAt ''AB CD'' [''AB CD''] 10 0 4) - 1))"
    unfolding Let_def by blast
  from r v n a b show ?thesis by blast
qed

text \<open>
  The claim as stated fails where the layout starts with an empty line: for the text
  \<open>abc\<close> with a leading space in a box 80 wide, the layout lines are the empty line and
  \<open>abc\<close>, and frame 0 (visible count 0) has two display lines, both empty.
\<close>

theorem display_prefix_structured_counterexample:
  "lines (optimizeLayout monoMeasure '' abc'' 80 1536 12 100) = ['''', ''abc'']
   \<and> frameRegime 90 0 0 = Typing
   \<and> visibleChars '' abc'' 90 0 0 = Fin 0
   \<and> displayLinesAt '' abc'' ['''', ''abc''] 90 0 0 = ['''', '''']
   \<and> displayLinesAt '' abc'' ['''', ''abc''] 90 0 0 \<noteq> ['''']"
proof -
  have r: "frameRegime 90 0 0 = Typing" by (simp add: frameRegime_def)
  have v: "visibleChars '' abc'' 90 0 0 = Fin 0"
    by (simp add: visibleChars_def progress_def typingFrames_def js_div_def)
  have d: "displayLinesAt '' abc'' ['''', ''abc''] 90 0 0 = ['''', '''']"
    by (simp add: displayLinesAt_def r v js_trunc_def)
  show ?thesis by (simp add: monoMeasure_layout_space r v d)
qed

section \<open>Properties of the encoder handlers\<close>

lemma files_fold_unlinkSync:
  "files (fold unlinkSync xs s) = filter (\<lambda>f. f \<notin> set xs) (files s)"
proof (induction xs arbitrary: s)
  case Nil
  then show ?case by simp
next
  case (Cons x xs)
  have "files (fold unlinkSync (x # xs) s) = filter (\<lambda>f. f \<notin> set xs) (removeAll x (files s))"
    by (simp add: Cons.IH unlinkSync_def)
  also have "\<dots> = filter (\<lambda>f. f \<notin> set (x # xs)) (files s)"
    by (simp add: removeAll_filter_not_eq conj_commute eq_commute [of x])
  finally show ?case .
qed

lemma dirExists_fold_unlinkSync:
  "dirExists (fold unlinkSync xs s) = dirExists s"
  by (induction xs arbitrary: s) (simp_all add: unlinkSync_def)

lemma onEnd_cleans: "onEnd s = (Inr (), \<lparr>dirExists = False, files = []\<rparr>)"
proof -
  have "files (fold unlinkSync (files s) s) = []"
    by (simp add: files_fold_unlinkSync)
  then show ?thesis
    by (simp add: onEnd_def rmdirSync_def)
qed

text \<open>
  Claim C9. When the encoder fails, the promise is rejected with the encoder's error, so
  the error reaches the caller. The cleanup runs only in the \<open>end\<close> handler: after an error
  the frame files and the directory are still there, while after a normal end they are
  gone.
\<close>

theorem encoder_error_keeps_frames:
  "runEncoder (EncoderError ''ffmpeg exited with code 1'')
     \<lparr>dirExists = True, files = [''frame_00000.png'', ''frame_00001.png'']\<rparr>
   = (Inl ''ffmpeg exited with code 1'',
      \<lparr>dirExists = True, files = [''frame_00000.png'', ''frame_00001.png'']\<rparr>)
   \<and> runEncoder EncoderEnd
        \<lparr>dirExists = True, files = [''frame_00000.png'', ''frame_00001.png'']\<rparr>
      = (Inr (), \<lparr>dirExists = False, files = []\<rparr>)"
  by (simp add: onError_def onEnd_cleans)

end
